theory Spec2Isabelle
  imports Main "HOL-Library.Word"
begin

section \<open>Values, exceptions and dictionaries\<close>

text \<open>
  The objects that travel through the driver: the values the wire codec decodes to
  (and encodes from). Floating-point numbers are left out of the model.
  A dictionary is kept as an association list in insertion order whose keys are
  pairwise different as dictionary keys.
\<close>

datatype val =
    VNone
  | VBool bool
  | VInt int
  | VStr string
  | VList "val list"
  | VTuple "val list"
  | VDict "(val \<times> val) list"

type_synonym pydict = "(val \<times> val) list"

type_synonym bytes = "8 word list"

text \<open>The transport exceptions \<open>socket.error\<close> and \<open>socket.timeout\<close>, with their text.\<close>

datatype exc = SocketError string | SocketTimeout string

fun str_exc :: "exc \<Rightarrow> string" where
  "str_exc (SocketError m) = m"
| "str_exc (SocketTimeout m) = m"

text \<open>
  Modelled from the spec: the class \<open>Error\<close> of \<open>exceptions.py\<close>, which is not part of
  the sources at hand. The specification describes it as the single error kind carrying
  \<open>(code, message, optional_wrapped_cause)\<close>; the constructor \<open>Error\<close> below holds
  exactly these three. The other constructors are the interpreter's own exceptions that
  the code of \<open>connection.py\<close> can let escape, \<open>Raised\<close> being a transport exception
  that nobody has caught yet and \<open>OtherError\<close> anything raised by the codec or by a
  registered converter.
\<close>

datatype error =
    Error val string "exc option"
  | Raised exc
  | TypeError
  | ValueError
  | IndexError
  | AttributeError string
  | OtherError string

text \<open>
  Equality of keys and of scalars is Python's: \<open>True == 1\<close> and \<open>False == 0\<close>.
  \<open>norm\<close> maps a value to the representative of its class.
\<close>

fun norm :: "val \<Rightarrow> val" where
  "norm (VBool b) = VInt (if b then 1 else 0)"
| "norm (VList xs) = VList (map norm xs)"
| "norm (VTuple xs) = VTuple (map norm xs)"
| "norm v = v"

definition py_eq :: "val \<Rightarrow> val \<Rightarrow> bool" where
  "py_eq a b = (norm a = norm b)"

fun hashable :: "val \<Rightarrow> bool" where
  "hashable (VList xs) = False"
| "hashable (VDict kvs) = False"
| "hashable (VTuple xs) = list_all hashable xs"
| "hashable v = True"

text \<open>\<open>d.get(key, default)\<close> for a hashable key.\<close>

fun dict_get :: "pydict \<Rightarrow> val \<Rightarrow> val \<Rightarrow> val" where
  "dict_get [] key dflt = dflt"
| "dict_get ((k, v) # kvs) key dflt = (if py_eq k key then v else dict_get kvs key dflt)"

text \<open>
  \<open>d[key] = value\<close>: an unhashable key raises \<open>TypeError\<close>; an existing key keeps its
  place and its first spelling, a new one goes to the end.
\<close>

fun dict_store :: "pydict \<Rightarrow> val \<Rightarrow> val \<Rightarrow> pydict" where
  "dict_store [] key value = [(key, value)]"
| "dict_store ((k, v) # kvs) key value =
     (if py_eq k key then (k, value) # kvs else (k, v) # dict_store kvs key value)"

definition dict_setitem :: "pydict \<Rightarrow> val \<Rightarrow> val \<Rightarrow> error + pydict" where
  "dict_setitem d key value =
     (if hashable key then Inr (dict_store d key value) else Inl TypeError)"

text \<open>Truth value of an object, as \<open>if data\<close> and \<open>if reply\<close> test it.\<close>

fun truthy :: "val \<Rightarrow> bool" where
  "truthy VNone = False"
| "truthy (VBool b) = b"
| "truthy (VInt i) = (i \<noteq> 0)"
| "truthy (VStr s) = (s \<noteq> [])"
| "truthy (VList xs) = (xs \<noteq> [])"
| "truthy (VTuple xs) = (xs \<noteq> [])"
| "truthy (VDict kvs) = (kvs \<noteq> [])"

text \<open>
  Iterating an object: \<open>None\<close>, booleans and integers are not iterable, a string yields
  its characters, a dictionary its keys.
\<close>

fun py_iter :: "val \<Rightarrow> error + val list" where
  "py_iter (VList xs) = Inr xs"
| "py_iter (VTuple xs) = Inr xs"
| "py_iter (VStr s) = Inr (map (\<lambda>c. VStr [c]) s)"
| "py_iter (VDict kvs) = Inr (map fst kvs)"
| "py_iter v = Inl TypeError"

section \<open>Status objects\<close>

definition OK :: int where "OK = 0"
definition UNKNOWN_ERROR :: int where "UNKNOWN_ERROR = 1"
definition NETWORK_ERROR :: int where "NETWORK_ERROR = 100"
definition DEFAULT_MESSAGE :: string where "DEFAULT_MESSAGE = ''Unknown error.''"

text \<open>
  \<open>Connection._check_status\<close>. The class \<open>Connection\<close> has no attribute \<open>Error\<close>
  (the exception class is a name of the module, imported from \<open>exceptions\<close>), so the
  expression \<open>self.Error\<close> of the \<open>raise\<close> statement fails with \<open>AttributeError\<close>
  before any \<open>Error\<close> object is built.
\<close>

definition check_status :: "pydict \<Rightarrow> error + pydict option" where
  "check_status data =
     (let status = dict_get data (VStr ''status'') (VInt UNKNOWN_ERROR) in
      if \<not> py_eq status (VInt OK)
      then (let message = dict_get data (VStr ''message'') (VStr DEFAULT_MESSAGE)
            in Inl (AttributeError ''Error''))
      else Inr None)"

section \<open>The value codec adapter\<close>

text \<open>
  The class-level registries and the wire codec. The registry of decoders is a
  dictionary from type names to functions; a function may raise. The wire codec
  (msgpack) is an external collaborator and enters as a parameter: \<open>packb\<close> serialises
  an object, given the hook for objects it does not know; \<open>unpacker\<close> is a fresh
  streaming decoder, \<open>feed\<close> hands it a buffer, and \<open>unpack\<close> gives the objects that
  iterating over it yields, the exception that ends the iteration if there is one, and
  the decoder afterwards.
\<close>

datatype pytype = TNone | TBool | TInt | TStr | TList | TTuple | TDict

fun type_of :: "val \<Rightarrow> pytype" where
  "type_of VNone = TNone"
| "type_of (VBool b) = TBool"
| "type_of (VInt i) = TInt"
| "type_of (VStr s) = TStr"
| "type_of (VList xs) = TList"
| "type_of (VTuple xs) = TTuple"
| "type_of (VDict kvs) = TDict"

type_synonym converter = "val \<Rightarrow> error + val"

record 'u env =
  to_primitive_converters :: "pytype \<rightharpoonup> converter"
  from_primitive_converters :: "val \<rightharpoonup> converter"
  packb :: "converter \<Rightarrow> val \<Rightarrow> error + bytes"
  unpacker :: 'u
  feed :: "bytes \<Rightarrow> 'u \<Rightarrow> 'u"
  unpack :: "'u \<Rightarrow> val list \<times> error option \<times> 'u"

text \<open>\<open>Connection.to_primitive\<close>\<close>

definition to_primitive :: "'u env \<Rightarrow> val \<Rightarrow> error + val" where
  "to_primitive E obj =
     (case to_primitive_converters E (type_of obj) of
        None \<Rightarrow> Inr obj
      | Some fn \<Rightarrow> fn obj)"

text \<open>
  \<open>Connection.from_primitive\<close>. Looking an unhashable type name up raises \<open>TypeError\<close>,
  which is not the \<open>KeyError\<close> the method catches. The registry is read at the
  representative of the key.
\<close>

definition from_primitive :: "'u env \<Rightarrow> val \<Rightarrow> val \<Rightarrow> error + val" where
  "from_primitive E value type_name =
     (if \<not> hashable type_name then Inl TypeError
      else case from_primitive_converters E (norm type_name) of
             None \<Rightarrow> Inr value
           | Some fn \<Rightarrow> fn value)"

section \<open>The connection and the reply classifier\<close>

text \<open>
  The fields of a \<open>Connection\<close>. \<open>socket\<close> is the reference to the transport channel,
  \<open>None\<close> once it has been discarded; the state of the channel itself belongs to the
  network, below. \<open>meta_info\<close> is \<open>VNone\<close> while unset.
\<close>

datatype socket = Socket

record conn =
  dbname :: val
  dbpath :: val
  socket :: "socket option"
  meta_info :: val

definition closed :: "conn \<Rightarrow> bool" where
  "closed c = (socket c = None)"

text \<open>The assignment \<open>(col_name, col_type) = item\<close>.\<close>

definition unpack_pair :: "val \<Rightarrow> error + val \<times> val" where
  "unpack_pair item =
     (case py_iter item of
        Inl e \<Rightarrow> Inl e
      | Inr [a, b] \<Rightarrow> Inr (a, b)
      | Inr _ \<Rightarrow> Inl ValueError)"

text \<open>The body of the loop of \<open>Connection._construct_row\<close>, over the zipped pairs.\<close>

fun row_loop :: "'u env \<Rightarrow> (val \<times> val) list \<Rightarrow> pydict \<Rightarrow> error + pydict" where
  "row_loop E [] row = Inr row"
| "row_loop E ((item, value) # rest) row =
     (case unpack_pair item of
        Inl e \<Rightarrow> Inl e
      | Inr (col_name, col_type) \<Rightarrow>
          (case from_primitive E value col_type of
             Inl e \<Rightarrow> Inl e
           | Inr v \<Rightarrow>
               (case dict_setitem row col_name v of
                  Inl e \<Rightarrow> Inl e
                | Inr row' \<Rightarrow> row_loop E rest row')))"

text \<open>
  \<open>Connection._construct_row\<close>. \<open>zip\<close> asks both arguments for an iterator, the
  metadata first, and stops at the shorter one.
\<close>

definition construct_row :: "'u env \<Rightarrow> conn \<Rightarrow> val \<Rightarrow> error + pydict" where
  "construct_row E c data =
     (case py_iter (meta_info c) of
        Inl e \<Rightarrow> Inl e
      | Inr cols \<Rightarrow>
          (case py_iter data of
             Inl e \<Rightarrow> Inl e
           | Inr values \<Rightarrow> row_loop E (zip cols values) []))"

text \<open>\<open>data[-1]\<close>: only sequences can be indexed, and an empty one has no last item.\<close>

fun last_item :: "val \<Rightarrow> error + val" where
  "last_item (VList xs) = (if xs = [] then Inl IndexError else Inr (last xs))"
| "last_item (VTuple xs) = (if xs = [] then Inl IndexError else Inr (last xs))"
| "last_item (VStr s) = (if s = [] then Inl IndexError else Inr (VStr [last s]))"
| "last_item v = Inl TypeError"

fun is_list_or_tuple :: "val \<Rightarrow> bool" where
  "is_list_or_tuple (VList xs) = True"
| "is_list_or_tuple (VTuple xs) = True"
| "is_list_or_tuple v = False"

text \<open>The entries of a dictionary object.\<close>

fun items :: "val \<Rightarrow> pydict" where
  "items (VDict kvs) = kvs"
| "items v = []"

text \<open>
  \<open>Connection._process_reply\<close>: the reply (\<open>None\<close> or a row) or the exception, and the
  connection afterwards.
\<close>

definition process_reply :: "'u env \<Rightarrow> conn \<Rightarrow> val \<Rightarrow> (error + pydict option) \<times> conn" where
  "process_reply E c data =
     (case data of
        VDict kvs \<Rightarrow> (check_status kvs, c)
      | _ \<Rightarrow>
          if truthy data
          then (case last_item data of
                  Inl e \<Rightarrow> (Inl e, c)
                | Inr l \<Rightarrow>
                    if is_list_or_tuple l then (Inr None, c\<lparr>meta_info := data\<rparr>)
                    else (map_sum id Some (construct_row E c data), c))
          else (map_sum id Some (construct_row E c data), c))"

section \<open>The transport channel\<close>

text \<open>
  The network as the driver meets it: \<open>incoming\<close> lists what the successive calls of
  the operating system's \<open>recv\<close> will return or raise (once the list is used up the
  peer has closed the stream, and \<open>recv\<close> returns the empty buffer); \<open>send_faults\<close>
  lists the outcomes of the successive calls of \<open>sendall\<close> (none left: the call
  succeeds); \<open>sent\<close> records the buffers that went out.
\<close>

datatype read = Data bytes | Fail exc

record net =
  incoming :: "read list"
  send_faults :: "exc option list"
  sent :: "bytes list"

definition sock_recv :: "net \<Rightarrow> (exc + bytes) \<times> net" where
  "sock_recv n =
     (case incoming n of
        [] \<Rightarrow> (Inr [], n)
      | Data buf # rest \<Rightarrow> (Inr buf, n\<lparr>incoming := rest\<rparr>)
      | Fail e # rest \<Rightarrow> (Inl e, n\<lparr>incoming := rest\<rparr>))"

text \<open>\<open>Socket.send\<close>: nothing if the call succeeds, the exception otherwise.\<close>

definition Socket_send :: "net \<Rightarrow> bytes \<Rightarrow> exc option \<times> net" where
  "Socket_send n data =
     (case send_faults n of
        [] \<Rightarrow> (None, n\<lparr>sent := sent n @ [data]\<rparr>)
      | None # rest \<Rightarrow> (None, n\<lparr>send_faults := rest, sent := sent n @ [data]\<rparr>)
      | Some e # rest \<Rightarrow> (Some e, n\<lparr>send_faults := rest\<rparr>))"

text \<open>
  \<open>Socket.recv\<close> is a generator. Its frame is either not yet started, or suspended at
  the \<open>yield\<close> with the buffer it has just handed out, or finished. One call of
  \<open>next\<close> runs it to the following \<open>yield\<close> (\<open>Inr (Some buf)\<close>), to its \<open>return\<close>
  (\<open>Inr None\<close>) or to the exception of the read (\<open>Inl e\<close>).
\<close>

datatype recv_gen = Fresh | Suspended bytes | Finished

definition recv_read :: "net \<Rightarrow> (exc + bytes option) \<times> recv_gen \<times> net" where
  "recv_read n =
     (case sock_recv n of
        (Inl e, n') \<Rightarrow> (Inl e, Finished, n')
      | (Inr buf, n') \<Rightarrow>
          if buf = [] then (Inr None, Finished, n')
          else (Inr (Some buf), Suspended buf, n'))"

fun Socket_recv :: "nat \<Rightarrow> recv_gen \<Rightarrow> net \<Rightarrow> (exc + bytes option) \<times> recv_gen \<times> net" where
  "Socket_recv buf_size Fresh n = recv_read n"
| "Socket_recv buf_size (Suspended buf) n =
     (if length buf < buf_size then (Inr None, Finished, n) else recv_read n)"
| "Socket_recv buf_size Finished n = (Inr None, Finished, n)"

text \<open>A frame whose next step is a read: fresh, or suspended on a full buffer.\<close>

definition reading :: "nat \<Rightarrow> recv_gen \<Rightarrow> bool" where
  "reading buf_size g = (g = Fresh \<or> (\<exists>b. g = Suspended b \<and> buf_size \<le> length b))"

text \<open>
  The generator driven until it ends: the buffers it yields, the exception that ended
  it if one did, and the network afterwards.
\<close>

function Socket_recv_all :: "nat \<Rightarrow> recv_gen \<Rightarrow> net \<Rightarrow> bytes list \<times> exc option \<times> net" where
  "Socket_recv_all buf_size g n =
     (case Socket_recv buf_size g n of
        (Inl e, g', n') \<Rightarrow> ([], Some e, n')
      | (Inr None, g', n') \<Rightarrow> ([], None, n')
      | (Inr (Some buf), g', n') \<Rightarrow>
          (case Socket_recv_all buf_size g' n' of
             (bufs, r, n'') \<Rightarrow> (buf # bufs, r, n'')))"
  by pat_completeness auto
termination
proof (relation "measure (\<lambda>(buf_size, g, n). length (incoming n))")
  show "wf (measure (\<lambda>(buf_size, g, n). length (incoming n)))"
    by simp
next
  fix buf_size :: nat and g g' :: recv_gen and n n' :: net
    and x :: "exc + bytes option" and y :: "recv_gen \<times> net"
    and o' :: "bytes option" and buf :: bytes
  assume "(x, y) = Socket_recv buf_size g n" "(g', n') = y" "x = Inr o'" "o' = Some buf"
  then have step: "Socket_recv buf_size g n = (Inr (Some buf), g', n')"
    by simp
  have "length (incoming n') < length (incoming n)"
    using step
    by (cases g)
       (auto simp: recv_read_def sock_recv_def
             split: if_splits list.splits read.splits)
  then show "((buf_size, g', n'), (buf_size, g, n))
             \<in> measure (\<lambda>(buf_size, g, n). length (incoming n))"
    by simp
qed

section \<open>Sending and receiving\<close>

text \<open>The exception object that \<open>_send\<close> and \<open>_recv\<close> build from a transport exception.\<close>

definition network_error :: "exc \<Rightarrow> error" where
  "network_error e = Error (VInt NETWORK_ERROR) (str_exc e) (Some e)"

text \<open>
  \<open>Connection._send\<close>: the exception it raises, if any, the connection and the
  network afterwards. Serialising happens before the \<open>try\<close>; inside it, only the
  transport exceptions are caught.
\<close>

definition send :: "'u env \<Rightarrow> conn \<Rightarrow> net \<Rightarrow> val \<Rightarrow> error option \<times> conn \<times> net" where
  "send E c n data =
     (case packb E (to_primitive E) data of
        Inl e \<Rightarrow> (Some e, c, n)
      | Inr serialized \<Rightarrow>
          (case socket c of
             None \<Rightarrow> (Some (AttributeError ''send''), c, n)
           | Some sock \<Rightarrow>
               (case Socket_send n serialized of
                  (Some e, n') \<Rightarrow> (Some (network_error e), c\<lparr>socket := None\<rparr>, n')
                | (None, n') \<Rightarrow> (None, c, n'))))"

text \<open>
  The inner loop of \<open>_recv\<close> over the objects the decoder has ready: the rows yielded,
  the exception that stopped it if one did, and the connection afterwards. Only a
  reply that is true is yielded.
\<close>

fun process_objs :: "'u env \<Rightarrow> conn \<Rightarrow> val list \<Rightarrow> pydict list \<times> error option \<times> conn" where
  "process_objs E c [] = ([], None, c)"
| "process_objs E c (obj # objs) =
     (case process_reply E c obj of
        (Inl e, c') \<Rightarrow> ([], Some e, c')
      | (Inr reply, c') \<Rightarrow>
          (case process_objs E c' objs of
             (rows, r, c'') \<Rightarrow>
               ((case reply of
                   None \<Rightarrow> []
                 | Some row \<Rightarrow> if row \<noteq> [] then [row] else []) @ rows, r, c'')))"

text \<open>
  The outer loop of \<open>_recv\<close> over the buffers of \<open>self._socket.recv()\<close>, the generator
  being driven by the caller until it ends: rows yielded, the exception that ended it
  if one did, the connection and the network afterwards.
\<close>

definition BUF_SIZE :: nat where "BUF_SIZE = 4096"

function recv_loop ::
  "'u env \<Rightarrow> recv_gen \<Rightarrow> 'u \<Rightarrow> conn \<Rightarrow> net \<Rightarrow> pydict list \<times> error option \<times> conn \<times> net" where
  "recv_loop E g u c n =
     (case Socket_recv BUF_SIZE g n of
        (Inl e, g', n') \<Rightarrow> ([], Some (Raised e), c, n')
      | (Inr None, g', n') \<Rightarrow> ([], None, c, n')
      | (Inr (Some data), g', n') \<Rightarrow>
          (case unpack E (feed E data u) of
             (objs, decode_error, u') \<Rightarrow>
               (case process_objs E c objs of
                  (rows, Some e, c') \<Rightarrow> (rows, Some e, c', n')
                | (rows, None, c') \<Rightarrow>
                    (case decode_error of
                       Some e \<Rightarrow> (rows, Some e, c', n')
                     | None \<Rightarrow>
                         (case recv_loop E g' u' c' n' of
                            (rows', r, c'', n'') \<Rightarrow> (rows @ rows', r, c'', n''))))))"
  by pat_completeness auto
termination
proof (relation "measure (\<lambda>(E, g, u, c, n). length (incoming n))")
  show "wf (measure (\<lambda>(E :: 'u env, g, u, c, n). length (incoming n)))"
    by simp
next
  fix E :: "'u env" and g g' :: recv_gen and u u' :: 'u and c c' :: conn and n n' :: net
    and x :: "exc + bytes option" and y :: "recv_gen \<times> net"
    and o' :: "bytes option" and data :: bytes
  assume "(x, y) = Socket_recv BUF_SIZE g n" "(g', n') = y" "x = Inr o'" "o' = Some data"
  then have step: "Socket_recv BUF_SIZE g n = (Inr (Some data), g', n')"
    by simp
  have "length (incoming n') < length (incoming n)"
    using step
    by (cases g)
       (auto simp: recv_read_def sock_recv_def
             split: if_splits list.splits read.splits)
  then show "((E, g', u', c', n'), (E, g, u, c, n))
             \<in> measure (\<lambda>(E, g, u, c, n). length (incoming n))"
    by simp
qed

text \<open>
  \<open>Connection._recv\<close>. The metadata is reset first. With the channel discarded,
  \<open>self._socket.recv\<close> is an attribute of \<open>None\<close>. A transport exception raised
  anywhere inside the \<open>try\<close> discards the channel and is wrapped.
\<close>

definition recv :: "'u env \<Rightarrow> conn \<Rightarrow> net \<Rightarrow> pydict list \<times> error option \<times> conn \<times> net" where
  "recv E c n =
     (let c0 = c\<lparr>meta_info := VNone\<rparr> in
      case socket c0 of
        None \<Rightarrow> ([], Some (AttributeError ''recv''), c0, n)
      | Some sock \<Rightarrow>
          (case recv_loop E Fresh (unpacker E) c0 n of
             (rows, Some (Raised e), c', n') \<Rightarrow>
               (rows, Some (network_error e), c'\<lparr>socket := None\<rparr>, n')
           | (rows, r, c', n') \<Rightarrow> (rows, r, c', n')))"

text \<open>
  What the decoder yields over a sequence of buffers, fed one after the other and
  iterated after each, as the loop of \<open>_recv\<close> does: the objects, the exception
  that stopped the decoding if one did, and the decoder afterwards.
\<close>

fun unpack_all :: "'u env \<Rightarrow> 'u \<Rightarrow> bytes list \<Rightarrow> val list \<times> error option \<times> 'u" where
  "unpack_all E u [] = ([], None, u)"
| "unpack_all E u (data # rest) =
     (case unpack E (feed E data u) of
        (objs, Some e, u') \<Rightarrow> (objs, Some e, u')
      | (objs, None, u') \<Rightarrow>
          (case unpack_all E u' rest of
             (objs', r, u'') \<Rightarrow> (objs @ objs', r, u'')))"

section \<open>Commands\<close>

definition EXECUTE :: int where "EXECUTE = 1"
definition EXECUTE_AND_FETCH :: int where "EXECUTE_AND_FETCH = 2"

text \<open>The envelope of a query.\<close>

definition query_envelope :: "conn \<Rightarrow> int \<Rightarrow> val \<Rightarrow> val \<Rightarrow> val" where
  "query_envelope c operation sql params =
     VDict [(VStr ''endpoint'', VStr ''query''),
            (VStr ''operation'', VInt operation),
            (VStr ''database'', dbname c),
            (VStr ''query'', sql),
            (VStr ''parameters'', params)]"

text \<open>
  \<open>Connection._command\<close>, with the positional arguments after the SQL text as a list.
  The assignment \<open>(params,) = parameters\<close> succeeds for exactly one argument; its
  \<open>ValueError\<close> is caught otherwise. The envelope is sent at once; the reply is the
  generator of \<open>_recv\<close>, here driven to its end.
\<close>

definition command ::
  "'u env \<Rightarrow> conn \<Rightarrow> net \<Rightarrow> int \<Rightarrow> val \<Rightarrow> val list \<Rightarrow> pydict list \<times> error option \<times> conn \<times> net" where
  "command E c n operation sql parameters =
     (let params = (case parameters of [p] \<Rightarrow> p | _ \<Rightarrow> VTuple []) in
      case send E c n (query_envelope c operation sql params) of
        (Some e, c', n') \<Rightarrow> ([], Some e, c', n')
      | (None, c', n') \<Rightarrow> recv E c' n')"

definition execute ::
  "'u env \<Rightarrow> conn \<Rightarrow> net \<Rightarrow> val \<Rightarrow> val list \<Rightarrow> pydict list \<times> error option \<times> conn \<times> net" where
  "execute E c n sql parameters = command E c n EXECUTE sql parameters"

definition fetch ::
  "'u env \<Rightarrow> conn \<Rightarrow> net \<Rightarrow> val \<Rightarrow> val list \<Rightarrow> pydict list \<times> error option \<times> conn \<times> net" where
  "fetch E c n sql parameters = command E c n EXECUTE_AND_FETCH sql parameters"

section \<open>Storing a list of columns\<close>

text \<open>The dictionary after storing values under string keys, one after the other.\<close>

definition store_all :: "pydict \<Rightarrow> (string \<times> val) list \<Rightarrow> pydict" where
  "store_all d kvs = foldl (\<lambda>d (k, v). dict_store d (VStr k) v) d kvs"

section \<open>The reply shapes as the specification words them\<close>

text \<open>
  The specification sorts a decoded object into one of three shapes: a mapping is a
  status object; otherwise a non-empty sequence whose last element is itself a
  sequence is a metadata object; anything else is a row object. A sequence is what the
  codec decodes an array to, a list or a tuple.
\<close>

datatype shape = Status | Metadata | Row

definition spec_shape :: "val \<Rightarrow> shape" where
  "spec_shape obj =
     (case obj of
        VDict kvs \<Rightarrow> Status
      | VList xs \<Rightarrow> if xs \<noteq> [] \<and> is_list_or_tuple (last xs) then Metadata else Row
      | VTuple xs \<Rightarrow> if xs \<noteq> [] \<and> is_list_or_tuple (last xs) then Metadata else Row
      | _ \<Rightarrow> Row)"

section \<open>A test double for the codec\<close>

text \<open>
  A codec for trying the driver out: the decoder keeps the bytes it is fed and hands
  them all to a given function, which says what objects they hold; serialising gives a
  single byte, the truth value of the object. Both registries are empty, as they are
  when the class is created.
\<close>

definition test_env :: "(bytes \<Rightarrow> val list) \<Rightarrow> bytes env" where
  "test_env decode =
     \<lparr>to_primitive_converters = Map.empty,
      from_primitive_converters = Map.empty,
      packb = (\<lambda>default obj. Inr [if truthy obj then 1 else 0]),
      unpacker = [],
      feed = (\<lambda>data u. u @ data),
      unpack = (\<lambda>u. (decode u, None, []))\<rparr>"

definition test_conn :: conn where
  "test_conn =
     \<lparr>dbname = VStr ''main'', dbpath = VStr ''/tmp'', socket = Some Socket,
      meta_info = VNone\<rparr>"

definition test_net :: "read list \<Rightarrow> net" where
  "test_net script = \<lparr>incoming = script, send_faults = [], sent = []\<rparr>"

section \<open>Basic facts\<close>

lemma py_eq_str [simp]: "py_eq k (VStr s) = (k = VStr s)"
  by (cases k) (auto simp: py_eq_def)

lemma construct_row_unset:
  "meta_info c = VNone \<Longrightarrow> construct_row E c data = Inl TypeError"
  by (simp add: construct_row_def)

lemma construct_row_not_iterable:
  "py_iter data = Inl TypeError \<Longrightarrow> construct_row E c data = Inl TypeError"
  by (simp add: construct_row_def split: sum.splits) (cases "meta_info c"; simp)

section \<open>Status objects\<close>

text \<open>
  C1. A status object whose status is not the OK code should raise the driver's error
  with that status and the message. At the status object \<open>{'status': 1}\<close> the method
  raises \<open>AttributeError\<close> instead, for the attribute \<open>Error\<close> that the connection
  does not have, and no error carrying the code 1 and the placeholder message is built.
\<close>

theorem check_status_attribute_error:
  "check_status [(VStr ''status'', VInt 1)] = Inl (AttributeError ''Error'')
   \<and> check_status [(VStr ''status'', VInt 1)] \<noteq> Inl (Error (VInt 1) DEFAULT_MESSAGE None)"
  by (simp add: check_status_def py_eq_def UNKNOWN_ERROR_def OK_def)

section \<open>Classification\<close>

text \<open>
  C7. Classification follows the three shapes of the specification, in its order: a
  mapping goes to the status check and leaves the connection as it is; a non-empty
  sequence whose last element is a sequence is stored as the current metadata and
  gives no row; every other object is handed to the row builder. (An integer or a
  boolean that is true fails with \<open>TypeError\<close> at \<open>data[-1]\<close>, which is also what
  the row builder raises for it.)
\<close>

theorem process_reply_shapes:
  "process_reply E c obj =
     (case spec_shape obj of
        Status \<Rightarrow> (check_status (items obj), c)
      | Metadata \<Rightarrow> (Inr None, c\<lparr>meta_info := obj\<rparr>)
      | Row \<Rightarrow> (map_sum id Some (construct_row E c obj), c))"
  by (cases obj)
     (auto simp: process_reply_def spec_shape_def construct_row_not_iterable split: if_splits)

section \<open>A row before any metadata\<close>

text \<open>
  C3, as stated: a row object processed while no metadata has been seen gives an empty
  mapping and raises nothing. For the row \<open>[1, 'x']\<close> on a connection whose metadata
  is unset the classifier raises \<open>TypeError\<close>.
\<close>

theorem row_before_metadata_counterexample:
  "fst (process_reply (test_env (\<lambda>u. [])) test_conn (VList [VInt 1, VStr ''x'']))
     = Inl TypeError
   \<and> fst (process_reply (test_env (\<lambda>u. [])) test_conn (VList [VInt 1, VStr ''x'']))
     \<noteq> Inr (Some [])"
  by (simp add: process_reply_def construct_row_def test_conn_def)

text \<open>
  C3, amended: processing a row object while the metadata is unset raises
  \<open>TypeError\<close> (the unset metadata cannot be iterated), produces no mapping and
  leaves the connection as it is.
\<close>

theorem row_before_metadata_raises:
  assumes "meta_info c = VNone" and "spec_shape data = Row"
  shows "process_reply E c data = (Inl TypeError, c)"
  using assms
  by (cases data)
     (auto simp: process_reply_def spec_shape_def construct_row_unset split: if_splits)

theorem row_before_metadata_raises_witness:
  "meta_info test_conn = VNone
   \<and> spec_shape (VList [VInt 1, VStr ''x'']) = Row
   \<and> process_reply (test_env (\<lambda>u. [])) test_conn (VList [VInt 1, VStr ''x''])
       = (Inl TypeError, test_conn)"
proof -
  have m: "meta_info test_conn = VNone"
    by (simp add: test_conn_def)
  have s: "spec_shape (VList [VInt 1, VStr ''x'']) = Row"
    by (simp add: spec_shape_def)
  show ?thesis
    using m s row_before_metadata_raises [OF m s, of "test_env (\<lambda>u. [])"] by simp
qed

section \<open>The generator of the transport channel\<close>

declare Socket_recv_all.simps [simp del]

declare recv_loop.simps [simp del]

lemma recv_read_yield:
  "recv_read n = (Inr (Some buf), g', n') \<Longrightarrow> buf \<noteq> [] \<and> g' = Suspended buf"
  by (auto simp: recv_read_def split: prod.splits sum.splits if_splits)

lemma Socket_recv_yield:
  "Socket_recv bs g n = (Inr (Some buf), g', n') \<Longrightarrow> buf \<noteq> [] \<and> g' = Suspended buf"
  by (cases g) (auto dest: recv_read_yield split: if_splits)

lemma Socket_recv_reading:
  "reading bs g \<Longrightarrow> Socket_recv bs g n = recv_read n"
  by (auto simp: reading_def)

lemma recv_read_Data:
  "buf \<noteq> [] \<Longrightarrow>
   recv_read (n\<lparr>incoming := Data buf # rest\<rparr>) = (Inr (Some buf), Suspended buf, n\<lparr>incoming := rest\<rparr>)"
  by (simp add: recv_read_def sock_recv_def)

lemma recv_read_empty:
  "recv_read (n\<lparr>incoming := Data [] # rest\<rparr>) = (Inr None, Finished, n\<lparr>incoming := rest\<rparr>)"
  by (simp add: recv_read_def sock_recv_def)

lemma recv_read_closed:
  "recv_read (n\<lparr>incoming := []\<rparr>) = (Inr None, Finished, n\<lparr>incoming := []\<rparr>)"
  by (simp add: recv_read_def sock_recv_def)

lemma recv_read_Fail:
  "recv_read (n\<lparr>incoming := Fail e # rest\<rparr>) = (Inl e, Finished, n\<lparr>incoming := rest\<rparr>)"
  by (simp add: recv_read_def sock_recv_def)


lemma Socket_recv_all_raised:
  "Socket_recv bs g n = (Inl e, g', n') \<Longrightarrow> Socket_recv_all bs g n = ([], Some e, n')"
  by (subst Socket_recv_all.simps) simp

lemma Socket_recv_all_finished:
  "Socket_recv bs g n = (Inr None, g', n') \<Longrightarrow> Socket_recv_all bs g n = ([], None, n')"
  by (subst Socket_recv_all.simps) simp

lemma Socket_recv_all_yielded:
  "Socket_recv bs g n = (Inr (Some buf), g', n') \<Longrightarrow>
   Socket_recv_all bs g n =
     (case Socket_recv_all bs g' n' of (bufs, r, n'') \<Rightarrow> (buf # bufs, r, n''))"
  by (subst Socket_recv_all.simps) simp

lemma Socket_recv_all_reading:
  "reading bs g \<Longrightarrow> Socket_recv_all bs g n = Socket_recv_all bs Fresh n"
  by (subst (1 2) Socket_recv_all.simps) (simp add: Socket_recv_reading)

lemma Socket_recv_all_prefix:
  assumes "\<forall>d\<in>set pre. d \<noteq> [] \<and> bs \<le> length d" and "reading bs g"
  shows "Socket_recv_all bs g (n\<lparr>incoming := map Data pre @ tail\<rparr>) =
           (case Socket_recv_all bs Fresh (n\<lparr>incoming := tail\<rparr>) of
              (bufs, r, n') \<Rightarrow> (pre @ bufs, r, n'))"
  using assms
proof (induction pre arbitrary: g)
  case Nil
  then show ?case by (simp add: Socket_recv_all_reading split: prod.splits)
next
  case (Cons d pre)
  have d: "d \<noteq> []" "bs \<le> length d" using Cons.prems(1) by auto
  have step: "Socket_recv bs g (n\<lparr>incoming := Data d # map Data pre @ tail\<rparr>)
                = (Inr (Some d), Suspended d, n\<lparr>incoming := map Data pre @ tail\<rparr>)"
    using Socket_recv_reading [OF Cons.prems(2)] recv_read_Data [OF d(1)] by simp
  have rd: "reading bs (Suspended d)" using d by (simp add: reading_def)
  have IH: "Socket_recv_all bs (Suspended d) (n\<lparr>incoming := map Data pre @ tail\<rparr>) =
           (case Socket_recv_all bs Fresh (n\<lparr>incoming := tail\<rparr>) of
              (bufs, r, n') \<Rightarrow> (pre @ bufs, r, n'))"
    using Cons.IH [OF _ rd] Cons.prems(1) by simp
  show ?case
    using Socket_recv_all_yielded [OF step] by (simp add: IH split: prod.splits)
qed

lemma Socket_recv_all_nonempty:
  "Socket_recv_all bs g n = (bufs, r, n') \<Longrightarrow> [] \<notin> set bufs"
proof (induction bs g n arbitrary: bufs r n' rule: Socket_recv_all.induct)
  case (1 bs g n)
  show ?case
  proof (cases "Socket_recv bs g n")
    case (fields x g1 n1)
    show ?thesis
    proof (cases x)
      case (Inl e)
      with fields "1.prems" Socket_recv_all_raised [of bs g n e g1 n1] show ?thesis by simp
    next
      case (Inr ob)
      show ?thesis
      proof (cases ob)
        case None
        with Inr fields "1.prems" Socket_recv_all_finished [of bs g n g1 n1] show ?thesis by simp
      next
        case (Some buf)
        obtain bufs1 r1 n2 where rest: "Socket_recv_all bs g1 n1 = (bufs1, r1, n2)"
          by (cases "Socket_recv_all bs g1 n1") auto
        have ne: "buf \<noteq> []"
          using Socket_recv_yield fields Inr Some by blast
        have "[] \<notin> set bufs1"
          using "1.IH" [OF fields [symmetric] Inr Some refl rest] .
        moreover have "bufs = buf # bufs1"
          using "1.prems" fields Inr Some rest Socket_recv_all_yielded [of bs g n buf g1 n1]
          by simp
        ultimately show ?thesis using ne by auto
      qed
    qed
  qed
qed

text \<open>
  C8. The generator yields only non-empty buffers, whatever the network does. After
  any number of full buffers it ends without yielding anything more as soon as a read
  returns the empty buffer (also when the peer has closed the stream), and it ends right
  after yielding a buffer shorter than the requested size, without reading again: what
  the network still holds stays there.
\<close>

theorem Socket_recv_chunks:
  assumes "\<forall>d\<in>set pre. d \<noteq> [] \<and> bs \<le> length d"
    and "short \<noteq> []" and "length short < bs"
  shows "[] \<notin> set (fst (Socket_recv_all bs Fresh n0))
    \<and> Socket_recv_all bs Fresh (n\<lparr>incoming := map Data pre @ Data [] # rest\<rparr>)
        = (pre, None, n\<lparr>incoming := rest\<rparr>)
    \<and> Socket_recv_all bs Fresh (n\<lparr>incoming := map Data pre\<rparr>)
        = (pre, None, n\<lparr>incoming := []\<rparr>)
    \<and> Socket_recv_all bs Fresh (n\<lparr>incoming := map Data pre @ Data short # rest\<rparr>)
        = (pre @ [short], None, n\<lparr>incoming := rest\<rparr>)"
proof (intro conjI)
  show "[] \<notin> set (fst (Socket_recv_all bs Fresh n0))"
    using Socket_recv_all_nonempty [of bs Fresh n0] by (cases "Socket_recv_all bs Fresh n0") auto
next
  have fresh: "reading bs Fresh" by (simp add: reading_def)
  note prefix = Socket_recv_all_prefix [OF assms(1) fresh]
  have "Socket_recv_all bs Fresh (n\<lparr>incoming := Data [] # rest\<rparr>) = ([], None, n\<lparr>incoming := rest\<rparr>)"
    by (rule Socket_recv_all_finished) (simp add: recv_read_empty)
  then show "Socket_recv_all bs Fresh (n\<lparr>incoming := map Data pre @ Data [] # rest\<rparr>)
        = (pre, None, n\<lparr>incoming := rest\<rparr>)"
    using prefix [where n = n and tail = "Data [] # rest"] by simp
  have "Socket_recv_all bs Fresh (n\<lparr>incoming := []\<rparr>) = ([], None, n\<lparr>incoming := []\<rparr>)"
    by (rule Socket_recv_all_finished) (simp add: recv_read_closed)
  then show "Socket_recv_all bs Fresh (n\<lparr>incoming := map Data pre\<rparr>)
        = (pre, None, n\<lparr>incoming := []\<rparr>)"
    using prefix [where n = n and tail = "[]"] by simp
  have "Socket_recv_all bs (Suspended short) (n\<lparr>incoming := rest\<rparr>) = ([], None, n\<lparr>incoming := rest\<rparr>)"
    using assms(3) by (intro Socket_recv_all_finished) simp
  moreover have "Socket_recv bs Fresh (n\<lparr>incoming := Data short # rest\<rparr>)
      = (Inr (Some short), Suspended short, n\<lparr>incoming := rest\<rparr>)"
    using assms(2) by (simp add: recv_read_Data)
  ultimately have "Socket_recv_all bs Fresh (n\<lparr>incoming := Data short # rest\<rparr>)
               = ([short], None, n\<lparr>incoming := rest\<rparr>)"
    using Socket_recv_all_yielded [of bs Fresh "n\<lparr>incoming := Data short # rest\<rparr>" short] by simp
  then show "Socket_recv_all bs Fresh (n\<lparr>incoming := map Data pre @ Data short # rest\<rparr>)
        = (pre @ [short], None, n\<lparr>incoming := rest\<rparr>)"
    using prefix [where n = n and tail = "Data short # rest"] by simp
qed

theorem Socket_recv_chunks_witness:
  "[1, 2 :: 8 word] \<noteq> [] \<and> 2 \<le> length [1, 2 :: 8 word]
   \<and> [3 :: 8 word] \<noteq> [] \<and> length [3 :: 8 word] < 2
   \<and> Socket_recv_all 2 Fresh (test_net [Data [1, 2], Data [], Data [4, 5]])
       = ([[1, 2]], None, test_net [Data [4, 5]])
   \<and> Socket_recv_all 2 Fresh (test_net [Data [1, 2], Data [3], Data [4, 5]])
       = ([[1, 2], [3]], None, test_net [Data [4, 5]])"
  using Socket_recv_chunks [where pre = "[[1, 2]]" and bs = 2 and short = "[3]"
      and n = "test_net []" and ?n0.0 = "test_net []" and rest = "[Data [4, 5]]"]
  by (simp add: test_net_def)

section \<open>The reply cycle\<close>

lemma Socket_recv_sent:
  "Socket_recv bs g n = (x, g', n') \<Longrightarrow> sent n' = sent n \<and> send_faults n' = send_faults n"
  by (cases g)
     (auto simp: recv_read_def sock_recv_def
           split: if_splits list.splits read.splits prod.splits sum.splits)

lemma process_objs_nonempty:
  "process_objs E c objs = (rows, r, c') \<Longrightarrow> [] \<notin> set rows"
  by (induction objs arbitrary: c rows r c')
     (auto split: prod.splits sum.splits option.splits if_splits)

lemma recv_loop_raised:
  "Socket_recv BUF_SIZE g n = (Inl e, g', n') \<Longrightarrow>
   recv_loop E g u c n = ([], Some (Raised e), c, n')"
  by (subst recv_loop.simps) simp

lemma recv_loop_finished:
  "Socket_recv BUF_SIZE g n = (Inr None, g', n') \<Longrightarrow>
   recv_loop E g u c n = ([], None, c, n')"
  by (subst recv_loop.simps) simp

lemma recv_loop_stopped:
  "Socket_recv BUF_SIZE g n = (Inr (Some data), g', n') \<Longrightarrow>
   unpack E (feed E data u) = (objs, de, u') \<Longrightarrow>
   process_objs E c objs = (rows, Some e, c') \<Longrightarrow>
   recv_loop E g u c n = (rows, Some e, c', n')"
  by (subst recv_loop.simps) simp

lemma recv_loop_undecodable:
  "Socket_recv BUF_SIZE g n = (Inr (Some data), g', n') \<Longrightarrow>
   unpack E (feed E data u) = (objs, Some e, u') \<Longrightarrow>
   process_objs E c objs = (rows, None, c') \<Longrightarrow>
   recv_loop E g u c n = (rows, Some e, c', n')"
  by (subst recv_loop.simps) simp

lemma recv_loop_continued:
  "Socket_recv BUF_SIZE g n = (Inr (Some data), g', n') \<Longrightarrow>
   unpack E (feed E data u) = (objs, None, u') \<Longrightarrow>
   process_objs E c objs = (rows, None, c') \<Longrightarrow>
   recv_loop E g u c n =
     (case recv_loop E g' u' c' n' of (rows', r, c'', n'') \<Rightarrow> (rows @ rows', r, c'', n''))"
  by (subst recv_loop.simps) simp


lemma recv_loop_cases:
  assumes "recv_loop E g u c n = (rows, r, c1, n1)"
  obtains
    (raised) e g' where "Socket_recv BUF_SIZE g n = (Inl e, g', n1)"
      "rows = []" "r = Some (Raised e)" "c1 = c"
  | (finished) g' where "Socket_recv BUF_SIZE g n = (Inr None, g', n1)"
      "rows = []" "r = None" "c1 = c"
  | (stopped) data g' objs de u' e where
      "Socket_recv BUF_SIZE g n = (Inr (Some data), g', n1)"
      "unpack E (feed E data u) = (objs, de, u')"
      "process_objs E c objs = (rows, Some e, c1)" "r = Some e"
  | (undecodable) data g' objs e u' where
      "Socket_recv BUF_SIZE g n = (Inr (Some data), g', n1)"
      "unpack E (feed E data u) = (objs, Some e, u')"
      "process_objs E c objs = (rows, None, c1)" "r = Some e"
  | (continued) data g' n' objs u' rows0 c' rows' where
      "Socket_recv BUF_SIZE g n = (Inr (Some data), g', n')"
      "unpack E (feed E data u) = (objs, None, u')"
      "process_objs E c objs = (rows0, None, c')"
      "recv_loop E g' u' c' n' = (rows', r, c1, n1)" "rows = rows0 @ rows'"
proof -
  obtain x g' n' where step: "Socket_recv BUF_SIZE g n = (x, g', n')"
    by (cases "Socket_recv BUF_SIZE g n") auto
  show thesis
  proof (cases x)
    case (Inl e)
    with step assms recv_loop_raised [of g n e g' n' E u c] show thesis
      by (intro raised [of e g']) auto
  next
    case (Inr ob)
    show thesis
    proof (cases ob)
      case None
      with Inr step assms recv_loop_finished [of g n g' n' E u c] show thesis
        by (intro finished [of g']) auto
    next
      case (Some data)
      note step' = step [unfolded Inr Some]
      obtain objs de u' where dec: "unpack E (feed E data u) = (objs, de, u')"
        by (cases "unpack E (feed E data u)") auto
      obtain rows0 r0 c' where pr: "process_objs E c objs = (rows0, r0, c')"
        by (cases "process_objs E c objs") auto
      show thesis
      proof (cases r0)
        case (Some e)
        with assms recv_loop_stopped [OF step' dec pr [unfolded Some]] step' dec pr
        show thesis by (intro stopped [of data g' objs de u' e]) auto
      next
        case None
        note pr' = pr [unfolded None]
        show thesis
        proof (cases de)
          case (Some e)
          with assms recv_loop_undecodable [OF step' dec [unfolded Some] pr'] step' dec pr'
          show thesis by (intro undecodable [of data g' objs e u']) auto
        next
          case None
          note dec' = dec [unfolded None]
          obtain rows' r' c'' n'' where rest: "recv_loop E g' u' c' n' = (rows', r', c'', n'')"
            by (cases "recv_loop E g' u' c' n'") auto
          have "recv_loop E g u c n = (rows0 @ rows', r', c'', n'')"
            using recv_loop_continued [OF step' dec' pr'] rest by simp
          with assms have "rows = rows0 @ rows'" "r = r'" "c1 = c''" "n1 = n''" by simp_all
          with step' dec' pr' rest show thesis
            by (intro continued [of data g' n' objs u' rows0 c' rows']) auto
        qed
      qed
    qed
  qed
qed

lemma recv_loop_nonempty:
  "recv_loop E g u c n = (rows, r, c1, n1) \<Longrightarrow> [] \<notin> set rows"
proof (induction E g u c n arbitrary: rows r c1 n1 rule: recv_loop.induct)
  case (1 E g u c n)
  from "1.prems" show ?case
  proof (cases rule: recv_loop_cases)
    case (continued data g' n' objs u' rows0 c' rows')
    have "[] \<notin> set rows'"
      using "1.IH" [OF continued(1) [symmetric] refl refl refl continued(2) [symmetric] refl
                       continued(3) [symmetric] refl refl refl continued(4)] .
    moreover have "[] \<notin> set rows0"
      using continued(3) by (rule process_objs_nonempty)
    ultimately show ?thesis using continued(5) by simp
  qed (auto dest: process_objs_nonempty)
qed

lemma recv_loop_sent:
  "recv_loop E g u c n = (rows, r, c1, n1) \<Longrightarrow> sent n1 = sent n"
proof (induction E g u c n arbitrary: rows r c1 n1 rule: recv_loop.induct)
  case (1 E g u c n)
  from "1.prems" show ?case
  proof (cases rule: recv_loop_cases)
    case (continued data g' n' objs u' rows0 c' rows')
    have "sent n1 = sent n'"
      using "1.IH" [OF continued(1) [symmetric] refl refl refl continued(2) [symmetric] refl
                       continued(3) [symmetric] refl refl refl continued(4)] .
    then show ?thesis using Socket_recv_sent [OF continued(1)] by simp
  qed (auto dest: Socket_recv_sent)
qed

lemma fst_recv:
  "socket c = Some sock \<Longrightarrow>
   recv_loop E Fresh (unpacker E) (c\<lparr>meta_info := VNone\<rparr>) n = (rows, r, c1, n1) \<Longrightarrow>
   fst (recv E c n) = rows \<and> snd (snd (snd (recv E c n))) = n1"
  by (simp add: recv_def split: option.splits error.splits)

text \<open>
  C9. No empty mapping is ever yielded by a reply cycle: a reply that is an empty
  mapping is passed over and the loop goes on with the next object. With an empty
  sequence as the current metadata every row comes out empty.
\<close>

theorem rows_never_empty:
  "[] \<notin> set (fst (recv E c n))
   \<and> (process_reply E c obj = (Inr (Some []), c') \<longrightarrow>
        process_objs E c (obj # objs) = process_objs E c' objs)
   \<and> construct_row E (c\<lparr>meta_info := VList []\<rparr>) (VList values) = Inr []"
proof (intro conjI impI)
  show "[] \<notin> set (fst (recv E c n))"
  proof (cases "socket c")
    case None
    then show ?thesis by (simp add: recv_def)
  next
    case (Some sock)
    obtain rows r c1 n1
      where loop: "recv_loop E Fresh (unpacker E) (c\<lparr>meta_info := VNone\<rparr>) n = (rows, r, c1, n1)"
      by (cases "recv_loop E Fresh (unpacker E) (c\<lparr>meta_info := VNone\<rparr>) n") auto
    have "fst (recv E c n) = rows"
      using fst_recv [OF Some loop] by simp
    then show ?thesis using recv_loop_nonempty [OF loop] by simp
  qed
next
  assume "process_reply E c obj = (Inr (Some []), c')"
  then show "process_objs E c (obj # objs) = process_objs E c' objs"
    by (simp split: prod.splits)
next
  show "construct_row E (c\<lparr>meta_info := VList []\<rparr>) (VList values) = Inr []"
    by (simp add: construct_row_def)
qed

theorem rows_never_empty_witness:
  "process_reply (test_env (\<lambda>u. []))
      (test_conn\<lparr>meta_info := VList [VList [VStr ''a'', VStr ''int'']]\<rparr>) (VList [])
     = (Inr (Some []), test_conn\<lparr>meta_info := VList [VList [VStr ''a'', VStr ''int'']]\<rparr>)
   \<and> process_objs (test_env (\<lambda>u. []))
        (test_conn\<lparr>meta_info := VList [VList [VStr ''a'', VStr ''int'']]\<rparr>)
        [VList [], VList [VInt 1]]
     = ([[(VStr ''a'', VInt 1)]], None,
        test_conn\<lparr>meta_info := VList [VList [VStr ''a'', VStr ''int'']]\<rparr>)"
proof -
  let ?E = "test_env (\<lambda>u. []) :: bytes env"
  let ?c = "test_conn\<lparr>meta_info := VList [VList [VStr ''a'', VStr ''int'']]\<rparr>"
  have empty: "process_reply ?E ?c (VList []) = (Inr (Some []), ?c)"
    by (simp add: process_reply_def construct_row_def)
  have one: "process_objs ?E ?c [VList [VInt 1]] = ([[(VStr ''a'', VInt 1)]], None, ?c)"
    by (simp add: process_reply_def construct_row_def unpack_pair_def from_primitive_def
          dict_setitem_def test_env_def)
  show ?thesis
    using empty one
      rows_never_empty [where E = ?E and c = ?c and obj = "VList []" and c' = ?c
        and objs = "[VList [VInt 1]]"]
    by simp
qed

lemma recv_reset: "recv E (c\<lparr>meta_info := m\<rparr>) n = recv E c n"
  by (simp add: recv_def)

lemma query_envelope_meta:
  "query_envelope (c\<lparr>meta_info := m\<rparr>) operation sql params = query_envelope c operation sql params"
  by (simp add: query_envelope_def)

lemma send_meta:
  "send E c n data = (r, c', n') \<Longrightarrow>
   send E (c\<lparr>meta_info := m\<rparr>) n data = (r, c'\<lparr>meta_info := m\<rparr>, n')"
  by (auto simp: send_def split: sum.splits option.splits prod.splits)

lemma command_meta:
  "\<exists>c'. command E (c\<lparr>meta_info := m\<rparr>) n operation sql ps
        = (fst (command E c n operation sql ps), fst (snd (command E c n operation sql ps)),
           c', snd (snd (snd (command E c n operation sql ps))))"
proof -
  let ?params = "case ps of [p] \<Rightarrow> p | _ \<Rightarrow> VTuple []"
  obtain r c' n' where s: "send E c n (query_envelope c operation sql ?params) = (r, c', n')"
    by (cases "send E c n (query_envelope c operation sql ?params)") auto
  note s' = send_meta [OF s, of m]
  show ?thesis
  proof (cases r)
    case None
    then show ?thesis
      using s s' by (cases "recv E c' n'") (simp add: command_def query_envelope_meta recv_reset)
  next
    case (Some e)
    then show ?thesis
      using s s' by (simp add: command_def query_envelope_meta)
  qed
qed


text \<open>
  C4. The metadata is reset when a reply cycle starts: the cycle does not depend on
  what an earlier command left in \<open>meta_info\<close>. For two commands in sequence, the
  rows, the outcome and the network after the second command are those of the same
  command on a connection whose metadata is unset.
\<close>

theorem metadata_reset:
  "recv E (c\<lparr>meta_info := m\<rparr>) n = recv E (c\<lparr>meta_info := VNone\<rparr>) n
   \<and> (command E c n op1 sql1 ps1 = (rows1, r1, c1, n1) \<longrightarrow>
        fst (command E c1 n1 op2 sql2 ps2)
          = fst (command E (c1\<lparr>meta_info := VNone\<rparr>) n1 op2 sql2 ps2)
        \<and> fst (snd (command E c1 n1 op2 sql2 ps2))
          = fst (snd (command E (c1\<lparr>meta_info := VNone\<rparr>) n1 op2 sql2 ps2))
        \<and> snd (snd (snd (command E c1 n1 op2 sql2 ps2)))
          = snd (snd (snd (command E (c1\<lparr>meta_info := VNone\<rparr>) n1 op2 sql2 ps2))))"
proof -
  obtain c' where
    "command E (c1\<lparr>meta_info := VNone\<rparr>) n1 op2 sql2 ps2
       = (fst (command E c1 n1 op2 sql2 ps2), fst (snd (command E c1 n1 op2 sql2 ps2)),
          c', snd (snd (snd (command E c1 n1 op2 sql2 ps2))))"
    using command_meta [of E VNone c1 n1 op2 sql2 ps2] by blast
  then show ?thesis
    by (simp add: recv_reset)
qed

theorem metadata_reset_witness:
  "command (test_env (\<lambda>u. if u = [0] then [VList [VList [VStr ''a'', VStr ''int'']]] else [VList [VInt 1]]))
      test_conn (test_net [Data [0], Data [1]]) EXECUTE_AND_FETCH (VStr ''q'') []
     = ([], None, test_conn\<lparr>meta_info := VList [VList [VStr ''a'', VStr ''int'']]\<rparr>,
        \<lparr>incoming = [Data [1]], send_faults = [], sent = [[1]]\<rparr>)
   \<and> fst (command (test_env (\<lambda>u. if u = [0] then [VList [VList [VStr ''a'', VStr ''int'']]] else [VList [VInt 1]]))
        (test_conn\<lparr>meta_info := VList [VList [VStr ''a'', VStr ''int'']]\<rparr>)
        \<lparr>incoming = [Data [1]], send_faults = [], sent = [[1]]\<rparr>
        EXECUTE_AND_FETCH (VStr ''q'') []) = []
   \<and> fst (snd (command (test_env (\<lambda>u. if u = [0] then [VList [VList [VStr ''a'', VStr ''int'']]] else [VList [VInt 1]]))
        (test_conn\<lparr>meta_info := VList [VList [VStr ''a'', VStr ''int'']]\<rparr>)
        \<lparr>incoming = [Data [1]], send_faults = [], sent = [[1]]\<rparr>
        EXECUTE_AND_FETCH (VStr ''q'') [])) = Some TypeError"
proof -
  let ?E = "test_env (\<lambda>u. if u = [0] then [VList [VList [VStr ''a'', VStr ''int'']]] else [VList [VInt 1]])"
  let ?c1 = "test_conn\<lparr>meta_info := VList [VList [VStr ''a'', VStr ''int'']]\<rparr>"
  let ?n1 = "\<lparr>incoming = [Data [1]], send_faults = [], sent = [[1]]\<rparr>"
  have first: "command ?E test_conn (test_net [Data [0], Data [1]]) EXECUTE_AND_FETCH (VStr ''q'') []
                 = ([], None, ?c1, ?n1)"
    by (simp add: command_def send_def recv_def recv_loop.simps recv_read_def sock_recv_def
          Socket_send_def query_envelope_def process_reply_def test_conn_def test_net_def
          test_env_def BUF_SIZE_def)
  have second: "command ?E (?c1\<lparr>meta_info := VNone\<rparr>) ?n1 EXECUTE_AND_FETCH (VStr ''q'') []
                 = ([], Some TypeError, test_conn, \<lparr>incoming = [], send_faults = [], sent = [[1], [1]]\<rparr>)"
    by (simp add: command_def send_def recv_def recv_loop.simps recv_read_def sock_recv_def
          Socket_send_def query_envelope_def process_reply_def construct_row_def test_conn_def
          test_env_def BUF_SIZE_def)
  show ?thesis
    using first second
      metadata_reset [where E = ?E and c = test_conn and n = "test_net [Data [0], Data [1]]"
        and ?op1.0 = EXECUTE_AND_FETCH and ?sql1.0 = "VStr ''q''" and ?ps1.0 = "[]"
        and ?rows1.0 = "[]" and ?r1.0 = None and ?c1.0 = ?c1 and ?n1.0 = ?n1
        and ?op2.0 = EXECUTE_AND_FETCH and ?sql2.0 = "VStr ''q''" and ?ps2.0 = "[]"]
    by simp
qed

lemma recv_loop_reading:
  "reading BUF_SIZE g \<Longrightarrow> recv_loop E g u c n = recv_loop E Fresh u c n"
  by (subst (1 2) recv_loop.simps) (simp add: Socket_recv_reading)

lemma recv_loop_prefix:
  assumes "\<forall>d\<in>set pre. d \<noteq> [] \<and> BUF_SIZE \<le> length d" and "reading BUF_SIZE g"
    and "recv_loop E g u c (n\<lparr>incoming := map Data pre\<rparr>) = (rows, None, c1, n1)"
  shows "recv_loop E g u c (n\<lparr>incoming := map Data pre @ Fail e # rest\<rparr>)
           = (rows, Some (Raised e), c1, n\<lparr>incoming := rest\<rparr>)"
  using assms
proof (induction pre arbitrary: g u c rows)
  case Nil
  have "recv_loop E g u c (n\<lparr>incoming := []\<rparr>) = ([], None, c, n\<lparr>incoming := []\<rparr>)"
    by (rule recv_loop_finished) (simp add: Socket_recv_reading [OF Nil(2)] recv_read_closed)
  with Nil(3) have "rows = []" "c1 = c" by simp_all
  moreover have "recv_loop E g u c (n\<lparr>incoming := Fail e # rest\<rparr>)
                   = ([], Some (Raised e), c, n\<lparr>incoming := rest\<rparr>)"
    by (rule recv_loop_raised) (simp add: Socket_recv_reading [OF Nil(2)] recv_read_Fail)
  ultimately show ?case by simp
next
  case (Cons d pre)
  have d: "d \<noteq> []" "BUF_SIZE \<le> length d" using Cons.prems(1) by auto
  have rd: "reading BUF_SIZE (Suspended d)" using d by (simp add: reading_def)
  have step: "Socket_recv BUF_SIZE g (n\<lparr>incoming := Data d # map Data pre\<rparr>)
                = (Inr (Some d), Suspended d, n\<lparr>incoming := map Data pre\<rparr>)"
    using Socket_recv_reading [OF Cons.prems(2)] recv_read_Data [OF d(1)] by simp
  have step': "Socket_recv BUF_SIZE g (n\<lparr>incoming := Data d # map Data pre @ Fail e # rest\<rparr>)
                = (Inr (Some d), Suspended d, n\<lparr>incoming := map Data pre @ Fail e # rest\<rparr>)"
    using Socket_recv_reading [OF Cons.prems(2)] recv_read_Data [OF d(1)] by simp
  from Cons.prems(3) have run: "recv_loop E g u c (n\<lparr>incoming := Data d # map Data pre\<rparr>)
                                  = (rows, None, c1, n1)" by simp
  from run show ?case
  proof (cases rule: recv_loop_cases)
    case (continued data g' n' objs u' rows0 c' rows')
    from continued(1) step have eq: "data = d" "g' = Suspended d" "n' = n\<lparr>incoming := map Data pre\<rparr>"
      by auto
    have "recv_loop E (Suspended d) u' c' (n\<lparr>incoming := map Data pre @ Fail e # rest\<rparr>)
            = (rows', Some (Raised e), c1, n\<lparr>incoming := rest\<rparr>)"
      using Cons.IH [OF _ rd] Cons.prems(1) continued(4) eq by simp
    then show ?thesis
      using recv_loop_continued [OF step' continued(2) [unfolded eq] continued(3)] continued(5)
      by simp
  qed (use step in simp_all)
qed

lemma recv_open:
  "socket c = Some sock \<Longrightarrow>
   recv_loop E Fresh (unpacker E) (c\<lparr>meta_info := VNone\<rparr>) n = (rows, r, c1, n1) \<Longrightarrow>
   recv E c n =
     (case r of
        Some (Raised e) \<Rightarrow> (rows, Some (network_error e), c1\<lparr>socket := None\<rparr>, n1)
      | _ \<Rightarrow> (rows, r, c1, n1))"
  by (simp add: recv_def split: option.splits error.splits)

text \<open>
  C5. A transport exception during \<open>send\<close>, or during a read of the reply cycle
  (after any number of full buffers whose objects were processed without an exception),
  is raised as the driver's error with the code \<open>NETWORK_ERROR\<close> = 100, the text of
  the exception and the exception itself, and the connection is closed afterwards.
\<close>

theorem transport_failure_closes:
  assumes "socket c = Some sock"
  shows "(packb E (to_primitive E) data = Inr serialized \<longrightarrow>
          Socket_send n serialized = (Some e, n') \<longrightarrow>
            send E c n data
              = (Some (Error (VInt 100) (str_exc e) (Some e)), c\<lparr>socket := None\<rparr>, n')
            \<and> closed (c\<lparr>socket := None\<rparr>))
       \<and> ((\<forall>d\<in>set pre. d \<noteq> [] \<and> BUF_SIZE \<le> length d) \<longrightarrow>
          recv E c (n\<lparr>incoming := map Data pre\<rparr>) = (rows, None, c1, n1) \<longrightarrow>
            recv E c (n\<lparr>incoming := map Data pre @ Fail e # rest\<rparr>)
              = (rows, Some (Error (VInt 100) (str_exc e) (Some e)), c1\<lparr>socket := None\<rparr>,
                 n\<lparr>incoming := rest\<rparr>)
            \<and> closed (c1\<lparr>socket := None\<rparr>))"
proof (intro conjI impI)
  assume "packb E (to_primitive E) data = Inr serialized" "Socket_send n serialized = (Some e, n')"
  then show "send E c n data
              = (Some (Error (VInt 100) (str_exc e) (Some e)), c\<lparr>socket := None\<rparr>, n')"
    using assms by (simp add: send_def network_error_def NETWORK_ERROR_def)
next
  show "closed (c\<lparr>socket := None\<rparr>)" "closed (c1\<lparr>socket := None\<rparr>)"
    by (simp_all add: closed_def)
next
  assume full: "\<forall>d\<in>set pre. d \<noteq> [] \<and> BUF_SIZE \<le> length d"
    and run: "recv E c (n\<lparr>incoming := map Data pre\<rparr>) = (rows, None, c1, n1)"
  let ?c0 = "c\<lparr>meta_info := VNone\<rparr>"
  obtain rows0 r0 c0 n0 where
    loop: "recv_loop E Fresh (unpacker E) ?c0 (n\<lparr>incoming := map Data pre\<rparr>) = (rows0, r0, c0, n0)"
    by (cases "recv_loop E Fresh (unpacker E) ?c0 (n\<lparr>incoming := map Data pre\<rparr>)") auto
  have "r0 = None \<and> rows0 = rows \<and> c0 = c1"
    using recv_open [OF assms loop] run by (auto split: option.splits error.splits)
  then have loop': "recv_loop E Fresh (unpacker E) ?c0 (n\<lparr>incoming := map Data pre\<rparr>)
                      = (rows, None, c1, n0)"
    using loop by simp
  have fresh: "reading BUF_SIZE Fresh"
    by (simp add: reading_def)
  have "recv_loop E Fresh (unpacker E) ?c0 (n\<lparr>incoming := map Data pre @ Fail e # rest\<rparr>)
               = (rows, Some (Raised e), c1, n\<lparr>incoming := rest\<rparr>)"
    using recv_loop_prefix [OF full fresh loop'] .
  then show "recv E c (n\<lparr>incoming := map Data pre @ Fail e # rest\<rparr>)
              = (rows, Some (Error (VInt 100) (str_exc e) (Some e)), c1\<lparr>socket := None\<rparr>,
                 n\<lparr>incoming := rest\<rparr>)"
    using recv_open [OF assms, of E "n\<lparr>incoming := map Data pre @ Fail e # rest\<rparr>"]
    by (simp add: network_error_def NETWORK_ERROR_def)
qed

theorem transport_failure_closes_witness:
  "socket test_conn = Some Socket
   \<and> send (test_env (\<lambda>u. [])) test_conn
        \<lparr>incoming = [], send_faults = [Some (SocketError ''reset'')], sent = []\<rparr> VNone
       = (Some (Error (VInt 100) ''reset'' (Some (SocketError ''reset''))),
          test_conn\<lparr>socket := None\<rparr>, test_net [])
   \<and> closed (test_conn\<lparr>socket := None\<rparr>)
   \<and> replicate 4096 (0 :: 8 word) \<noteq> []
   \<and> BUF_SIZE \<le> length (replicate 4096 (0 :: 8 word))
   \<and> recv (test_env (\<lambda>u. [])) test_conn
        \<lparr>incoming = [Data (replicate 4096 0), Fail (SocketTimeout ''timed out'')],
         send_faults = [Some (SocketError ''reset'')], sent = []\<rparr>
       = ([], Some (Error (VInt 100) ''timed out'' (Some (SocketTimeout ''timed out''))),
          test_conn\<lparr>socket := None\<rparr>,
          \<lparr>incoming = [], send_faults = [Some (SocketError ''reset'')], sent = []\<rparr>)"
proof -
  let ?E = "test_env (\<lambda>u. []) :: bytes env"
  let ?n = "\<lparr>incoming = [], send_faults = [Some (SocketError ''reset'')], sent = []\<rparr>"
  have s: "socket test_conn = Some Socket"
    by (simp add: test_conn_def)
  have p: "packb ?E (to_primitive ?E) VNone = Inr [0]"
    by (simp add: test_env_def)
  have f: "Socket_send ?n [0] = (Some (SocketError ''reset''), test_net [])"
    by (simp add: Socket_send_def test_net_def)
  have full: "\<forall>d\<in>set [replicate 4096 (0 :: 8 word)]. d \<noteq> [] \<and> BUF_SIZE \<le> length d"
    by (simp add: BUF_SIZE_def)
  have run: "recv ?E test_conn (?n\<lparr>incoming := map Data [replicate 4096 0]\<rparr>)
               = ([], None, test_conn, ?n)"
    by (simp add: recv_def recv_loop.simps recv_read_def sock_recv_def test_conn_def
          test_env_def BUF_SIZE_def)
  show ?thesis
    using s full
      transport_failure_closes [OF s, where E = ?E and data = VNone and serialized = "[0]"
        and n = ?n and e = "SocketError ''reset''" and n' = "test_net []"]
      transport_failure_closes [OF s, where E = ?E and n = ?n and e = "SocketTimeout ''timed out''"
        and pre = "[replicate 4096 0]" and rows = "[]" and ?c1.0 = test_conn and ?n1.0 = ?n
        and rest = "[]"]
      p f run
    by simp
qed

section \<open>The envelope of a query\<close>

lemma send_sent:
  "send E c n data = (None, c', n') \<Longrightarrow>
   \<exists>b. packb E (to_primitive E) data = Inr b \<and> sent n' = sent n @ [b] \<and> c' = c \<and> socket c \<noteq> None"
  by (auto simp: send_def Socket_send_def
           split: sum.splits option.splits prod.splits list.splits)

lemma recv_sent: "sent (snd (snd (snd (recv E c n)))) = sent n"
proof (cases "socket c")
  case None
  then show ?thesis by (simp add: recv_def)
next
  case (Some sock)
  obtain rows r c1 n1
    where loop: "recv_loop E Fresh (unpacker E) (c\<lparr>meta_info := VNone\<rparr>) n = (rows, r, c1, n1)"
    by (cases "recv_loop E Fresh (unpacker E) (c\<lparr>meta_info := VNone\<rparr>) n") auto
  show ?thesis
    using fst_recv [OF Some loop] recv_loop_sent [OF loop] by simp
qed

lemma command_sent:
  assumes "fst (send E c n (query_envelope c operation sql params)) = None"
    and "packb E (to_primitive E) (query_envelope c operation sql params) = Inr b"
    and "ps = [params] \<or> (ps \<noteq> [params] \<and> length ps \<noteq> 1 \<and> params = VTuple [])"
  shows "sent (snd (snd (snd (command E c n operation sql ps)))) = sent n @ [b]"
proof -
  have params: "(case ps of [p] \<Rightarrow> p | _ \<Rightarrow> VTuple []) = params"
    using assms(3) by (auto split: list.splits)
  obtain c' n' where s: "send E c n (query_envelope c operation sql params) = (None, c', n')"
    using assms(1) by (cases "send E c n (query_envelope c operation sql params)") auto
  have "sent n' = sent n @ [b]"
    using send_sent [OF s] assms(2) by auto
  then show ?thesis
    using s recv_sent [of E c' n'] by (simp add: command_def params)
qed

text \<open>
  C10. What \<open>execute\<close> and \<open>fetch\<close> send is the serialised envelope whose
  \<open>parameters\<close> field is the single argument after the SQL text when there is
  exactly one, and the empty tuple when there are two or more: the failed unpacking
  raises nothing and the arguments are dropped.
\<close>

theorem parameters_envelope:
  assumes "fst (send E c n (query_envelope c operation sql params)) = None"
    and "packb E (to_primitive E) (query_envelope c operation sql params) = Inr b"
    and "ps = [params] \<or> (2 \<le> length ps \<and> params = VTuple [])"
  shows "(operation = EXECUTE \<longrightarrow> sent (snd (snd (snd (execute E c n sql ps)))) = sent n @ [b])
       \<and> (operation = EXECUTE_AND_FETCH \<longrightarrow>
            sent (snd (snd (snd (fetch E c n sql ps)))) = sent n @ [b])"
proof -
  have "ps = [params] \<or> (ps \<noteq> [params] \<and> length ps \<noteq> 1 \<and> params = VTuple [])"
    using assms(3) by auto
  from command_sent [OF assms(1,2) this] show ?thesis
    by (auto simp: execute_def fetch_def)
qed

theorem parameters_envelope_witness:
  "sent (snd (snd (snd (execute (test_env (\<lambda>u. [])) test_conn (test_net [])
                         (VStr ''q'') [VList [VInt 7]])))) = [[1]]
   \<and> query_envelope test_conn EXECUTE (VStr ''q'') (VList [VInt 7])
       = VDict [(VStr ''endpoint'', VStr ''query''), (VStr ''operation'', VInt 1),
                (VStr ''database'', VStr ''main''), (VStr ''query'', VStr ''q''),
                (VStr ''parameters'', VList [VInt 7])]
   \<and> [VInt 7, VInt 8] \<noteq> [VTuple []] \<and> 2 \<le> length [VInt 7, VInt 8]
   \<and> sent (snd (snd (snd (fetch (test_env (\<lambda>u. [])) test_conn (test_net [])
                         (VStr ''q'') [VInt 7, VInt 8])))) = [[1]]"
proof -
  let ?E = "test_env (\<lambda>u. []) :: bytes env"
  have s: "fst (send ?E test_conn (test_net []) (query_envelope test_conn operation (VStr ''q'') params))
             = None" for operation params
    by (simp add: send_def Socket_send_def query_envelope_def test_env_def test_conn_def
          test_net_def)
  have p: "packb ?E (to_primitive ?E) (query_envelope test_conn operation (VStr ''q'') params)
             = Inr [1]" for operation params
    by (simp add: query_envelope_def test_env_def)
  have e: "query_envelope test_conn EXECUTE (VStr ''q'') (VList [VInt 7])
       = VDict [(VStr ''endpoint'', VStr ''query''), (VStr ''operation'', VInt 1),
                (VStr ''database'', VStr ''main''), (VStr ''query'', VStr ''q''),
                (VStr ''parameters'', VList [VInt 7])]"
    by (simp add: query_envelope_def test_conn_def EXECUTE_def)
  show ?thesis
    using e
      parameters_envelope [OF s p, where operation = EXECUTE and params = "VList [VInt 7]"
        and ps = "[VList [VInt 7]]"]
      parameters_envelope [OF s p, where operation = EXECUTE_AND_FETCH and params = "VTuple []"
        and ps = "[VInt 7, VInt 8]"]
    by (simp add: test_net_def)
qed

section \<open>Building a row\<close>

lemma dict_store_str:
  "map_of (dict_store d (VStr s) v) = (map_of d)(VStr s \<mapsto> v)"
  by (induction d) auto

lemma dict_store_new:
  "VStr s \<notin> fst ` set d \<Longrightarrow> dict_store d (VStr s) v = d @ [(VStr s, v)]"
  by (induction d) auto

lemma store_all_map_of:
  "map_of (store_all d kvs) = map_of d ++ map_of (rev (map (\<lambda>(k, v). (VStr k, v)) kvs))"
  by (induction kvs arbitrary: d) (auto simp: store_all_def dict_store_str map_add_def
        split: option.splits)


lemma store_all_distinct:
  "distinct (map fst kvs) \<Longrightarrow> VStr ` fst ` set kvs \<inter> fst ` set d = {} \<Longrightarrow>
   store_all d kvs = d @ map (\<lambda>(k, v). (VStr k, v)) kvs"
proof (induction kvs arbitrary: d)
  case Nil
  then show ?case by (simp add: store_all_def)
next
  case (Cons kv kvs)
  obtain k v where kv: "kv = (k, v)" by (cases kv)
  have new: "VStr k \<notin> fst ` set d" using Cons.prems(2) kv by auto
  have step: "store_all d (kv # kvs) = store_all (d @ [(VStr k, v)]) kvs"
    using dict_store_new [OF new] by (simp add: store_all_def kv)
  have "VStr ` fst ` set kvs \<inter> fst ` set (d @ [(VStr k, v)]) = {}"
    using Cons.prems kv by (auto simp: image_iff)
  then have "store_all (d @ [(VStr k, v)]) kvs
               = (d @ [(VStr k, v)]) @ map (\<lambda>(k, v). (VStr k, v)) kvs"
    using Cons.IH Cons.prems(1) by simp
  then show ?case using step kv by simp
qed

lemma row_loop_zip:
  assumes "list_all2 (\<lambda>item (nm, ty). unpack_pair item = Inr (VStr nm, VStr ty)) metas cols"
    and "list_all2 (\<lambda>((nm, ty), value) v. from_primitive E value (VStr ty) = Inr v)
           (zip cols vals) decoded"
  shows "row_loop E (zip metas vals) acc = Inr (store_all acc (zip (map fst cols) decoded))"
  using assms
proof (induction metas arbitrary: cols vals decoded acc)
  case Nil
  then show ?case by (simp add: store_all_def)
next
  case (Cons item metas)
  from Cons.prems(1) obtain nm ty cols' where cols: "cols = (nm, ty) # cols'"
    and item: "unpack_pair item = Inr (VStr nm, VStr ty)"
    and rest: "list_all2 (\<lambda>item (nm, ty). unpack_pair item = Inr (VStr nm, VStr ty)) metas cols'"
    by (auto simp: list_all2_Cons1)
  show ?case
  proof (cases vals)
    case Nil
    with Cons.prems(2) show ?thesis by (simp add: store_all_def)
  next
    case (Cons x vals')
    with Cons.prems(2) cols obtain v decoded' where dec: "decoded = v # decoded'"
      and v: "from_primitive E x (VStr ty) = Inr v"
      and rest': "list_all2 (\<lambda>((nm, ty), value) v. from_primitive E value (VStr ty) = Inr v)
                    (zip cols' vals') decoded'"
      by (auto simp: list_all2_Cons1)
    have "row_loop E (zip metas vals') (dict_store acc (VStr nm) v)
            = Inr (store_all (dict_store acc (VStr nm) v) (zip (map fst cols') decoded'))"
      using Cons.IH [OF rest rest'] .
    then show ?thesis
      using item v by (simp add: Cons cols dec dict_setitem_def store_all_def)
  qed
qed

text \<open>
  C6. For metadata that is a sequence of pairs of a column name and a type name, and a
  row object that is a sequence of values, the row is built from the positional pairs
  up to the shorter of the two, each value converted by the decoder registered under
  the type name of its column (unchanged when none is registered), provided the
  decoders raise nothing. As a mapping the row takes each name to the converted value
  of its last position; when the names are distinct the row is the list of the pairs
  in column order.
\<close>

theorem construct_row_zip:
  assumes "py_iter (meta_info c) = Inr metas"
    and "list_all2 (\<lambda>item (nm, ty). unpack_pair item = Inr (VStr nm, VStr ty)) metas cols"
    and "py_iter data = Inr vals"
    and "list_all2
           (\<lambda>((nm, ty), value) v.
              (case from_primitive_converters E (VStr ty) of
                 None \<Rightarrow> Inr value
               | Some fn \<Rightarrow> fn value) = Inr v)
           (zip cols vals) decoded"
  shows "\<exists>row. construct_row E c data = Inr row
     \<and> length decoded = min (length cols) (length vals)
     \<and> map_of row = map_of (rev (zip (map (VStr \<circ> fst) cols) decoded))
     \<and> (distinct (map fst (take (length vals) cols)) \<longrightarrow>
          row = zip (map (VStr \<circ> fst) cols) decoded)"
proof -
  let ?kvs = "zip (map fst cols) decoded"
  have conv: "list_all2 (\<lambda>((nm, ty), value) v. from_primitive E value (VStr ty) = Inr v)
                (zip cols vals) decoded"
    using assms(4) by (simp add: from_primitive_def)
  have row: "construct_row E c data = Inr (store_all [] ?kvs)"
    using assms(1,3) row_loop_zip [OF assms(2) conv] by (simp add: construct_row_def)
  have len: "length decoded = min (length cols) (length vals)"
    using assms(4) by (auto dest: list_all2_lengthD)
  have keys: "map (\<lambda>(k, v). (VStr k, v)) ?kvs = zip (map (VStr \<circ> fst) cols) decoded"
    by (simp add: zip_map1 comp_def case_prod_unfold)
  have m: "map_of (store_all [] ?kvs) = map_of (rev (zip (map (VStr \<circ> fst) cols) decoded))"
    using store_all_map_of [of "[]" ?kvs] keys by simp
  have d: "store_all [] ?kvs = zip (map (VStr \<circ> fst) cols) decoded"
    if "distinct (map fst (take (length vals) cols))"
  proof -
    have "map fst ?kvs = take (length decoded) (map fst cols)"
      using len by (simp add: map_fst_zip_take min_def)
    also have "\<dots> = map fst (take (min (length cols) (length vals)) cols)"
      using len by (simp add: take_map)
    finally have "distinct (map fst ?kvs)"
      using that by (simp add: min_def take_map split: if_splits)
    then show ?thesis
      using store_all_distinct [of ?kvs "[]"] keys by simp
  qed
  show ?thesis
    using row len m d by blast
qed

theorem construct_row_zip_witness:
  "construct_row
      (test_env (\<lambda>u. [])\<lparr>from_primitive_converters := [VStr ''int'' \<mapsto> (\<lambda>v. Inr (VList [v]))]\<rparr>)
      (test_conn\<lparr>meta_info := VList [VList [VStr ''a'', VStr ''int''],
                                       VList [VStr ''b'', VStr ''text''],
                                       VList [VStr ''c'', VStr ''int'']]\<rparr>)
      (VList [VInt 1, VStr ''x''])
     = Inr [(VStr ''a'', VList [VInt 1]), (VStr ''b'', VStr ''x'')]"
proof -
  let ?E = "test_env (\<lambda>u. [])\<lparr>from_primitive_converters := [VStr ''int'' \<mapsto> (\<lambda>v. Inr (VList [v]))]\<rparr>"
  let ?metas = "[VList [VStr ''a'', VStr ''int''], VList [VStr ''b'', VStr ''text''],
                 VList [VStr ''c'', VStr ''int'']]"
  let ?c = "test_conn\<lparr>meta_info := VList ?metas\<rparr>"
  have 1: "py_iter (meta_info ?c) = Inr ?metas"
    by simp
  have 2: "list_all2 (\<lambda>item (nm, ty). unpack_pair item = Inr (VStr nm, VStr ty)) ?metas
             [(''a'', ''int''), (''b'', ''text''), (''c'', ''int'')]"
    by (simp add: unpack_pair_def)
  have 3: "py_iter (VList [VInt 1, VStr ''x'']) = Inr [VInt 1, VStr ''x'']"
    by simp
  have 4: "list_all2
           (\<lambda>((nm, ty), value) v.
              (case from_primitive_converters ?E (VStr ty) of
                 None \<Rightarrow> Inr value
               | Some fn \<Rightarrow> fn value) = Inr v)
           (zip [(''a'', ''int''), (''b'', ''text''), (''c'', ''int'')] [VInt 1, VStr ''x''])
           [VList [VInt 1], VStr ''x'']"
    by (simp add: test_env_def)
  show ?thesis
    using construct_row_zip [OF 1 2 3 4] by auto
qed

section \<open>A complete reply\<close>

lemma send_ok:
  "fst (send E c n data) = None \<Longrightarrow>
   \<exists>n'. send E c n data = (None, c, n') \<and> incoming n' = incoming n \<and> socket c \<noteq> None"
  by (auto simp: send_def Socket_send_def
           split: sum.splits option.splits prod.splits list.splits)

lemma process_example:
  assumes "from_primitive_converters E (VStr ''int'') = None"
    and "from_primitive_converters E (VStr ''text'') = None"
  shows "process_objs E (c\<lparr>meta_info := VNone\<rparr>)
           [VList [VList [VStr ''a'', VStr ''int''], VList [VStr ''b'', VStr ''text'']],
            VList [VInt 1, VStr ''x''],
            VList [VInt 2, VStr ''y''],
            VDict [(VStr ''status'', VInt 0)]]
         = ([[(VStr ''a'', VInt 1), (VStr ''b'', VStr ''x'')],
             [(VStr ''a'', VInt 2), (VStr ''b'', VStr ''y'')]],
            None,
            c\<lparr>meta_info := VList [VList [VStr ''a'', VStr ''int''], VList [VStr ''b'', VStr ''text'']]\<rparr>)"
  using assms
  by (simp add: process_reply_def construct_row_def unpack_pair_def from_primitive_def
        dict_setitem_def check_status_def py_eq_def OK_def UNKNOWN_ERROR_def)

lemma process_objs_append:
  "process_objs E c (xs @ ys) =
     (case process_objs E c xs of
        (rows, Some e, c') \<Rightarrow> (rows, Some e, c')
      | (rows, None, c') \<Rightarrow>
          (case process_objs E c' ys of (rows', r, c'') \<Rightarrow> (rows @ rows', r, c'')))"
  by (induction xs arbitrary: c)
     (auto split: prod.splits sum.splits option.splits)

lemma process_objs_append_ok:
  assumes "process_objs E c (xs @ ys) = (rows, None, c2)"
  obtains rows1 c1 rows2 where "process_objs E c xs = (rows1, None, c1)"
    "process_objs E c1 ys = (rows2, None, c2)" "rows = rows1 @ rows2"
  using assms
  by (auto simp: process_objs_append split: prod.splits option.splits)

lemma recv_loop_delivery:
  assumes "\<forall>d\<in>set pre. d \<noteq> [] \<and> BUF_SIZE \<le> length d" and "reading BUF_SIZE g"
    and "unpack_all E u pre = (objs, None, u1)"
    and "process_objs E c objs = (rows, None, c1)"
  shows "recv_loop E g u c (n\<lparr>incoming := map Data pre @ tail\<rparr>) =
           (case recv_loop E Fresh u1 c1 (n\<lparr>incoming := tail\<rparr>) of
              (rows', r, c', n') \<Rightarrow> (rows @ rows', r, c', n'))"
  using assms
proof (induction pre arbitrary: g u c objs rows)
  case Nil
  then show ?case by (simp add: recv_loop_reading split: prod.splits)
next
  case (Cons d pre)
  have d: "d \<noteq> []" "BUF_SIZE \<le> length d" using Cons.prems(1) by auto
  have rd: "reading BUF_SIZE (Suspended d)" using d by (simp add: reading_def)
  have step: "Socket_recv BUF_SIZE g (n\<lparr>incoming := Data d # map Data pre @ tail\<rparr>)
                = (Inr (Some d), Suspended d, n\<lparr>incoming := map Data pre @ tail\<rparr>)"
    using Socket_recv_reading [OF Cons.prems(2)] recv_read_Data [OF d(1)] by simp
  obtain objs0 de u' where dec: "unpack E (feed E d u) = (objs0, de, u')"
    by (cases "unpack E (feed E d u)") auto
  obtain objs' r' u'' where rest: "unpack_all E u' pre = (objs', r', u'')"
    by (cases "unpack_all E u' pre") auto
  have de: "de = None" and r': "r' = None" and u1: "u'' = u1" and objs: "objs = objs0 @ objs'"
    using Cons.prems(3) dec rest by (auto split: option.splits)
  from Cons.prems(4) [unfolded objs] obtain rows0 c0 rows'
    where p0: "process_objs E c objs0 = (rows0, None, c0)"
      and p1: "process_objs E c0 objs' = (rows', None, c1)"
      and rows: "rows = rows0 @ rows'"
    by (rule process_objs_append_ok)
  have IH: "recv_loop E (Suspended d) u' c0 (n\<lparr>incoming := map Data pre @ tail\<rparr>) =
           (case recv_loop E Fresh u1 c1 (n\<lparr>incoming := tail\<rparr>) of
              (rows'', r, c', n') \<Rightarrow> (rows' @ rows'', r, c', n'))"
    using Cons.IH [OF _ rd rest [unfolded r' u1] p1] Cons.prems(1) by simp
  show ?case
    using recv_loop_continued [OF step dec [unfolded de] p0]
    by (simp add: IH rows split: prod.splits)
qed

lemma recv_loop_last:
  assumes "d \<noteq> []"
    and "length d < BUF_SIZE \<or> rest = [] \<or> (\<exists>r. rest = Data [] # r)"
    and "unpack E (feed E d u) = (objs, None, u')"
    and "process_objs E c objs = (rows, None, c')"
  shows "\<exists>n'. recv_loop E Fresh u c (n\<lparr>incoming := Data d # rest\<rparr>) = (rows, None, c', n')"
proof -
  have step: "Socket_recv BUF_SIZE Fresh (n\<lparr>incoming := Data d # rest\<rparr>)
                = (Inr (Some d), Suspended d, n\<lparr>incoming := rest\<rparr>)"
    using recv_read_Data [OF assms(1)] by simp
  have "\<exists>n'. Socket_recv BUF_SIZE (Suspended d) (n\<lparr>incoming := rest\<rparr>) = (Inr None, Finished, n')"
    using assms(2) by (auto simp: recv_read_closed recv_read_empty)
  then obtain n' where
    fin: "Socket_recv BUF_SIZE (Suspended d) (n\<lparr>incoming := rest\<rparr>) = (Inr None, Finished, n')"
    by blast
  have "recv_loop E (Suspended d) u' c' (n\<lparr>incoming := rest\<rparr>) = ([], None, c', n')"
    using fin by (rule recv_loop_finished)
  then show ?thesis
    using recv_loop_continued [OF step assms(3,4)] by simp
qed

lemma incoming_same: "incoming n = script \<Longrightarrow> n\<lparr>incoming := script\<rparr> = n"
  by (cases n) auto


text \<open>
  C2, as stated: for the reply made of the metadata for the columns \<open>a\<close> of type
  \<open>int\<close> and \<open>b\<close> of type \<open>text\<close>, the rows \<open>[1, 'x']\<close> and
  \<open>[2, 'y']\<close> and the status object with the OK code, \<open>fetch\<close> yields the two
  mappings. When the network hands the reply over in two reads, each shorter than the
  read size, the generator of the channel ends after the first one: \<open>fetch\<close> yields
  the first mapping only, raises nothing, and the second read stays unread.
\<close>

theorem fetch_split_reply_counterexample:
  "fst (fetch (test_env (\<lambda>u. if u = [0]
                              then [VList [VList [VStr ''a'', VStr ''int''],
                                           VList [VStr ''b'', VStr ''text'']],
                                    VList [VInt 1, VStr ''x'']]
                              else [VList [VInt 2, VStr ''y''],
                                    VDict [(VStr ''status'', VInt 0)]]))
         test_conn (test_net [Data [0], Data [1]]) (VStr ''SELECT a, b FROM t'') [])
     = [[(VStr ''a'', VInt 1), (VStr ''b'', VStr ''x'')]]
   \<and> fst (fetch (test_env (\<lambda>u. if u = [0]
                              then [VList [VList [VStr ''a'', VStr ''int''],
                                           VList [VStr ''b'', VStr ''text'']],
                                    VList [VInt 1, VStr ''x'']]
                              else [VList [VInt 2, VStr ''y''],
                                    VDict [(VStr ''status'', VInt 0)]]))
         test_conn (test_net [Data [0], Data [1]]) (VStr ''SELECT a, b FROM t'') [])
     \<noteq> [[(VStr ''a'', VInt 1), (VStr ''b'', VStr ''x'')],
         [(VStr ''a'', VInt 2), (VStr ''b'', VStr ''y'')]]"
  by (simp add: fetch_def command_def send_def recv_def recv_loop.simps recv_read_def
        sock_recv_def Socket_send_def query_envelope_def process_reply_def construct_row_def
        unpack_pair_def from_primitive_def dict_setitem_def test_conn_def test_net_def
        test_env_def BUF_SIZE_def)

text \<open>
  C2, amended: for the same reply, handed over by the network in any number of full
  buffers followed by one last non-empty buffer after which the generator ends (the
  buffer is shorter than the read size, or the peer has closed the stream, or the next
  read returns the empty buffer), after the envelope has gone out and with no decoder
  registered for the two type names: \<open>fetch\<close>, driven to its end, yields the two
  mappings in that order and raises nothing.
\<close>

theorem fetch_example:
  assumes "from_primitive_converters E (VStr ''int'') = None"
    and "from_primitive_converters E (VStr ''text'') = None"
    and "fst (send E c n (query_envelope c EXECUTE_AND_FETCH sql
                (case ps of [p] \<Rightarrow> p | _ \<Rightarrow> VTuple []))) = None"
    and "incoming n = map Data pre @ Data d # rest"
    and "\<forall>b\<in>set pre. b \<noteq> [] \<and> BUF_SIZE \<le> length b"
    and "d \<noteq> []"
    and "length d < BUF_SIZE \<or> rest = [] \<or> (\<exists>r. rest = Data [] # r)"
    and "unpack_all E (unpacker E) (pre @ [d])
           = ([VList [VList [VStr ''a'', VStr ''int''], VList [VStr ''b'', VStr ''text'']],
               VList [VInt 1, VStr ''x''],
               VList [VInt 2, VStr ''y''],
               VDict [(VStr ''status'', VInt 0)]], None, u')"
  shows "fst (fetch E c n sql ps)
           = [[(VStr ''a'', VInt 1), (VStr ''b'', VStr ''x'')],
              [(VStr ''a'', VInt 2), (VStr ''b'', VStr ''y'')]]
         \<and> fst (snd (fetch E c n sql ps)) = None"
proof -
  let ?reply = "[VList [VList [VStr ''a'', VStr ''int''], VList [VStr ''b'', VStr ''text'']],
                 VList [VInt 1, VStr ''x''], VList [VInt 2, VStr ''y''],
                 VDict [(VStr ''status'', VInt 0)]]"
  let ?rows = "[[(VStr ''a'', VInt 1), (VStr ''b'', VStr ''x'')],
                [(VStr ''a'', VInt 2), (VStr ''b'', VStr ''y'')]]"
  let ?c0 = "c\<lparr>meta_info := VNone\<rparr>"
  obtain n' where s: "send E c n (query_envelope c EXECUTE_AND_FETCH sql
                        (case ps of [p] \<Rightarrow> p | _ \<Rightarrow> VTuple [])) = (None, c, n')"
    and inc: "incoming n' = incoming n" and sock: "socket c \<noteq> None"
    using send_ok [OF assms(3)] by blast
  obtain sk where sk: "socket c = Some sk" using sock by auto
  have n': "n'\<lparr>incoming := map Data pre @ Data d # rest\<rparr> = n'"
    using inc assms(4) by (simp add: incoming_same)
  obtain objs1 r1 u1 where a1: "unpack_all E (unpacker E) pre = (objs1, r1, u1)"
    by (cases "unpack_all E (unpacker E) pre") auto
  obtain objs2 r2 u2 where a2: "unpack E (feed E d u1) = (objs2, r2, u2)"
    by (cases "unpack E (feed E d u1)") auto
  have app: "unpack_all E u (xs @ [x]) =
               (case unpack_all E u xs of
                  (objs, Some e, u') \<Rightarrow> (objs, Some e, u')
                | (objs, None, u') \<Rightarrow>
                    (case unpack E (feed E x u') of (objs', r, u'') \<Rightarrow> (objs @ objs', r, u'')))"
    for u xs x
    by (induction xs arbitrary: u) (auto split: prod.splits option.splits)
  have r: "r1 = None" "r2 = None" and reply: "?reply = objs1 @ objs2"
    using assms(8) a1 a2 by (auto simp: app split: option.splits)
  obtain final where p: "process_objs E ?c0 ?reply = (?rows, None, final)"
    using process_example [OF assms(1,2)] by blast
  from p [unfolded reply] obtain rows1 c1 rows2
    where p1: "process_objs E ?c0 objs1 = (rows1, None, c1)"
      and p2: "process_objs E c1 objs2 = (rows2, None, final)"
      and rows: "?rows = rows1 @ rows2"
    by (rule process_objs_append_ok)
  have fresh: "reading BUF_SIZE Fresh"
    by (simp add: reading_def)
  obtain n'' where last: "recv_loop E Fresh u1 c1 (n'\<lparr>incoming := Data d # rest\<rparr>)
                            = (rows2, None, final, n'')"
    using recv_loop_last [OF assms(6,7) a2 [unfolded r] p2, where n = n'] by blast
  have "recv_loop E Fresh (unpacker E) ?c0 (n'\<lparr>incoming := map Data pre @ Data d # rest\<rparr>)
          = (rows1 @ rows2, None, final, n'')"
    using recv_loop_delivery [OF assms(5) fresh a1 [unfolded r] p1,
            where n = n' and tail = "Data d # rest"] last
    by simp
  then have loop: "recv_loop E Fresh (unpacker E) ?c0 n' = (?rows, None, final, n'')"
    using n' rows by simp
  show ?thesis
    using s recv_open [OF sk loop] by (simp add: fetch_def command_def)
qed

theorem fetch_example_witness:
  "incoming (test_net [Data (replicate 4096 0), Data [1], Data [2]])
     = map Data [replicate 4096 0] @ Data [1] # [Data [2]]
   \<and> replicate 4096 (0 :: 8 word) \<noteq> []
   \<and> BUF_SIZE \<le> length (replicate 4096 (0 :: 8 word))
   \<and> length [1 :: 8 word] < BUF_SIZE
   \<and> fst (fetch (test_env (\<lambda>u. if length u < 2
                                then [VList [VInt 2, VStr ''y''],
                                      VDict [(VStr ''status'', VInt 0)]]
                                else [VList [VList [VStr ''a'', VStr ''int''],
                                             VList [VStr ''b'', VStr ''text'']],
                                      VList [VInt 1, VStr ''x'']]))
           test_conn (test_net [Data (replicate 4096 0), Data [1], Data [2]])
           (VStr ''SELECT a, b FROM t'') [])
       = [[(VStr ''a'', VInt 1), (VStr ''b'', VStr ''x'')],
          [(VStr ''a'', VInt 2), (VStr ''b'', VStr ''y'')]]
   \<and> fst (snd (fetch (test_env (\<lambda>u. if length u < 2
                                then [VList [VInt 2, VStr ''y''],
                                      VDict [(VStr ''status'', VInt 0)]]
                                else [VList [VList [VStr ''a'', VStr ''int''],
                                             VList [VStr ''b'', VStr ''text'']],
                                      VList [VInt 1, VStr ''x'']]))
           test_conn (test_net [Data (replicate 4096 0), Data [1], Data [2]])
           (VStr ''SELECT a, b FROM t'') [])) = None"
proof -
  let ?E = "test_env (\<lambda>u. if length u < 2
                                then [VList [VInt 2, VStr ''y''],
                                      VDict [(VStr ''status'', VInt 0)]]
                                else [VList [VList [VStr ''a'', VStr ''int''],
                                             VList [VStr ''b'', VStr ''text'']],
                                      VList [VInt 1, VStr ''x'']])"
  let ?n = "test_net [Data (replicate 4096 0), Data [1], Data [2]]"
  let ?sql = "VStr ''SELECT a, b FROM t''"
  have 1: "from_primitive_converters ?E (VStr ''int'') = None"
    and 2: "from_primitive_converters ?E (VStr ''text'') = None"
    by (simp_all add: test_env_def)
  have 3: "fst (send ?E test_conn ?n
                 (query_envelope test_conn EXECUTE_AND_FETCH ?sql
                   (case [] of [p] \<Rightarrow> p | _ \<Rightarrow> VTuple []))) = None"
    by (simp add: send_def Socket_send_def query_envelope_def test_env_def test_conn_def
          test_net_def)
  have 4: "incoming ?n = map Data [replicate 4096 0] @ Data [1] # [Data [2]]"
    by (simp add: test_net_def)
  have 5: "\<forall>b\<in>set [replicate 4096 (0 :: 8 word)]. b \<noteq> [] \<and> BUF_SIZE \<le> length b"
    by (simp add: BUF_SIZE_def)
  have 6: "[1 :: 8 word] \<noteq> []"
    by simp
  have 7: "length [1 :: 8 word] < BUF_SIZE \<or> [Data [2]] = [] \<or> (\<exists>r. [Data [2]] = Data [] # r)"
    by (simp add: BUF_SIZE_def)
  have 8: "unpack_all ?E (unpacker ?E) ([replicate 4096 0] @ [[1]])
           = ([VList [VList [VStr ''a'', VStr ''int''], VList [VStr ''b'', VStr ''text'']],
               VList [VInt 1, VStr ''x''],
               VList [VInt 2, VStr ''y''],
               VDict [(VStr ''status'', VInt 0)]], None, [])"
    by (simp add: test_env_def)
  show ?thesis
    using 4 5 7 fetch_example [OF 1 2 3 4 5 6 7 8] by simp
qed

end
